theory Spec2Isabelle
  imports Complex_Main
begin

section \<open>JavaScript values\<close>

text \<open>
  A JavaScript string is a sequence of UTF-16 code units; a code unit is a natural number.
  \<open>js\<close> embeds an ASCII literal.
\<close>

type_synonym jsstring = "nat list"

definition js :: "string \<Rightarrow> jsstring" where
  "js s = map of_char s"

text \<open>
  The values \<open>JSON.parse\<close> can produce, and \<open>undefined\<close>. The program does no arithmetic
  on a value of a response: it converts it to a string, tests it against \<open>null\<close> and
  \<open>'?'\<close>, or passes it on. A Number is therefore represented by the string that
  \<open>Number.prototype.toString\<close> gives for it (\<open>JNum (js ''87.5'')\<close> is the number 87.5).
  An object is the list of its own properties.
\<close>

datatype jsval =
    JUndefined
  | JNull
  | JBool bool
  | JNum jsstring
  | JStr jsstring
  | JArr "jsval list"
  | JObj "(jsstring \<times> jsval) list"

datatype js_error =
    HttpError nat
  | NetworkError
  | TimeoutError
  | AbortedError
  | SyntaxError
  | TypeError

text \<open>A settled promise: \<open>Inl\<close> is a rejection, \<open>Inr\<close> a fulfilment.\<close>

type_synonym outcome = "js_error + jsval"

section \<open>The job runner (\<open>runJob\<close>, lines 42 to 53)\<close>

definition CONCURRENCY_LIMIT :: int where
  "CONCURRENCY_LIMIT = 6"

text \<open>
  An entry of \<open>queue\<close> is the object \<open>{ job, resolve }\<close> pushed at line 46. The job passed to
  the \<open>k\<close>-th call of \<open>runJob\<close> is named \<open>k\<close>, and so are the promise that call returns and
  its \<open>resolve\<close> function.
\<close>

record entry =
  job :: nat
  resolve :: nat

text \<open>
  The script runs on one thread: an async function runs without interruption from one
  \<open>await\<close> to the next. The executor of the \<open>k\<close>-th call is the task \<open>k\<close>. It is either
  suspended in \<open>await sleep(50)\<close> at line 47 (\<open>sleeping\<close>), or suspended in \<open>await j()\<close> at
  line 50 holding the entry it took off the queue (\<open>running\<close>), or finished.
  \<open>promises\<close> records how the promise returned by each call was settled, and \<open>outcomes\<close>
  how the promise returned by each job was settled.
\<close>

record runner =
  queue :: "entry list"
  active :: int
  sleeping :: "nat list"
  running :: "(nat \<times> entry) list"
  promises :: "nat \<rightharpoonup> outcome"
  outcomes :: "nat \<rightharpoonup> outcome"
  calls :: nat

definition init :: runner where
  "init = \<lparr>queue = [], active = 0, sleeping = [], running = [],
           promises = Map.empty, outcomes = Map.empty, calls = 0\<rparr>"

text \<open>
  Line 47 to the call \<open>j()\<close> of line 50, for task \<open>t\<close>: with no free slot the task sleeps;
  otherwise it takes the head of the queue, counts it and starts its job. Destructuring the
  \<open>undefined\<close> that \<open>shift\<close> returns on an empty queue throws inside the async executor,
  which ends the task and settles nothing.
\<close>

definition admit :: "nat \<Rightarrow> runner \<Rightarrow> runner" where
  "admit t s =
     (if active s \<ge> CONCURRENCY_LIMIT then s\<lparr>sleeping := sleeping s @ [t]\<rparr>
      else (case queue s of
              [] \<Rightarrow> s
            | e # q \<Rightarrow> s\<lparr>queue := q, active := active s + 1,
                          running := running s @ [(t, e)]\<rparr>))"

text \<open>A call of \<open>runJob\<close>: line 46, then \<open>admit\<close>, all before the first \<open>await\<close>.\<close>

definition submit :: "runner \<Rightarrow> runner" where
  "submit s =
     admit (calls s)
       (s\<lparr>queue := queue s @ [\<lparr>job = calls s, resolve = calls s\<rparr>], calls := calls s + 1\<rparr>)"

text \<open>The timer of a sleeping task fires: the loop test of line 47 again.\<close>

definition wake :: "nat \<Rightarrow> runner \<Rightarrow> runner" where
  "wake t s =
     (if t \<in> set (sleeping s) then admit t (s\<lparr>sleeping := remove1 t (sleeping s)\<rparr>) else s)"

text \<open>Lines 50 and 51: what \<open>res\<close> is called with, for a job that settled as \<open>out\<close>.\<close>

definition runJob_value :: "outcome \<Rightarrow> jsval" where
  "runJob_value out = (case out of Inr v \<Rightarrow> v | Inl e \<Rightarrow> JNull)"

text \<open>
  How the promise returned by \<open>runJob(job)\<close> is settled once the promise of \<open>job\<close> has
  settled as \<open>out\<close>: \<open>res\<close> fulfils it, and the executor has no \<open>reject\<close> to call.
\<close>

definition runJob :: "outcome \<Rightarrow> outcome" where
  "runJob out = Inr (runJob_value out)"

text \<open>
  The job awaited by task \<open>t\<close> settles as \<open>out\<close>: lines 50 to 52. Resolving a promise that
  is already settled has no effect.
\<close>

definition settle :: "nat \<Rightarrow> outcome \<Rightarrow> runner \<Rightarrow> runner" where
  "settle t out s =
     (case map_of (running s) t of
        None \<Rightarrow> s
      | Some e \<Rightarrow>
          s\<lparr>promises := (if promises s (resolve e) = None
                          then (promises s)(resolve e \<mapsto> runJob out)
                          else promises s),
            outcomes := (outcomes s)(job e \<mapsto> out),
            active := active s - 1,
            running := filter (\<lambda>r. fst r \<noteq> t) (running s)\<rparr>)"

datatype event = Submit | Wake nat | Settle nat outcome

fun step :: "event \<Rightarrow> runner \<Rightarrow> runner" where
  "step Submit s = submit s"
| "step (Wake t) s = wake t s"
| "step (Settle t out) s = settle t out s"

definition exec :: "event list \<Rightarrow> runner \<Rightarrow> runner" where
  "exec evs s = foldl (\<lambda>s e. step e s) s evs"

subsection \<open>Invariants of the job runner\<close>

text \<open>
  The counter equals the number of started, unfinished jobs and respects the limit; every
  sleeping task has its entry in the queue; task names are distinct; the entries waiting or
  running are distinct, pair each job with the \<open>resolve\<close> of its own call, and their jobs
  have not settled; a promise is settled exactly when its job has settled.
\<close>

definition inv_count :: "runner \<Rightarrow> bool" where
  "inv_count s \<longleftrightarrow> active s = int (length (running s)) \<and> active s \<le> CONCURRENCY_LIMIT"

definition inv_wait :: "runner \<Rightarrow> bool" where
  "inv_wait s \<longleftrightarrow> length (queue s) = length (sleeping s)"

definition inv_tasks :: "runner \<Rightarrow> bool" where
  "inv_tasks s \<longleftrightarrow>
     distinct (sleeping s @ map fst (running s)) \<and>
     (\<forall>t \<in> set (sleeping s @ map fst (running s)). t < calls s)"

definition inv_entries :: "runner \<Rightarrow> bool" where
  "inv_entries s \<longleftrightarrow>
     distinct (map job (queue s @ map snd (running s))) \<and>
     (\<forall>e \<in> set (queue s @ map snd (running s)).
        resolve e = job e \<and> job e < calls s \<and> outcomes s (job e) = None) \<and>
     (\<forall>p \<ge> calls s. outcomes s p = None)"

definition inv_settled :: "runner \<Rightarrow> bool" where
  "inv_settled s \<longleftrightarrow>
     (\<forall>p. promises s p = map_option runJob (outcomes s p))"

definition runner_inv :: "runner \<Rightarrow> bool" where
  "runner_inv s \<longleftrightarrow> inv_count s \<and> inv_wait s \<and> inv_tasks s \<and> inv_entries s \<and> inv_settled s"

section \<open>The chapter resolver (\<open>fetchLatestChapter\<close>, lines 58 to 104)\<close>

subsection \<open>Conversion to a string\<close>

text \<open>
  \<open>String(v)\<close>. The elements of an array are joined by commas, \<open>null\<close> and \<open>undefined\<close>
  elements as the empty string. An object made by \<open>JSON.parse\<close> converts to
  \<open>[object Object]\<close>, unless it has an own property \<open>toString\<close>: that property is not
  callable, \<open>valueOf\<close> does not give a primitive, and the conversion throws a TypeError.
\<close>

fun ToString :: "jsval \<Rightarrow> js_error + jsstring"
  and join :: "jsval list \<Rightarrow> js_error + jsstring" where
  "ToString JUndefined = Inr (js ''undefined'')"
| "ToString JNull = Inr (js ''null'')"
| "ToString (JBool b) = Inr (js (if b then ''true'' else ''false''))"
| "ToString (JNum n) = Inr n"
| "ToString (JStr s) = Inr s"
| "ToString (JArr xs) = join xs"
| "ToString (JObj ps) =
     (if js ''toString'' \<in> fst ` set ps then Inl TypeError else Inr (js ''[object Object]''))"
| "join [] = Inr []"
| "join (x # xs) =
     (case (if x = JNull \<or> x = JUndefined then Inr [] else ToString x) of
        Inl e \<Rightarrow> Inl e
      | Inr s \<Rightarrow>
          (if xs = [] then Inr s
           else (case join xs of Inl e \<Rightarrow> Inl e | Inr r \<Rightarrow> Inr (s @ js '','' @ r))))"

subsection \<open>The regular expression \<open>/one[\s-]?shot/i\<close>\<close>

text \<open>The characters \<open>\s\<close> matches: white space and line terminators.\<close>

definition is_space :: "nat \<Rightarrow> bool" where
  "is_space c \<longleftrightarrow>
     c \<in> {9, 10, 11, 12, 13, 32, 160, 5760, 8232, 8233, 8239, 8287, 12288, 65279} \<or>
     (8192 \<le> c \<and> c \<le> 8202)"

text \<open>
  A literal of lower-case ASCII letters matched at the head of a string, ignoring case:
  the rest of the string after the match. Without the \<open>u\<close> flag no character outside ASCII
  is equal to an ASCII letter under \<open>i\<close>.
\<close>

fun match_ci :: "string \<Rightarrow> jsstring \<Rightarrow> jsstring option" where
  "match_ci [] s = Some s"
| "match_ci (l # ls) [] = None"
| "match_ci (l # ls) (c # s) =
     (if c = of_char l \<or> c + 32 = of_char l then match_ci ls s else None)"

text \<open>The pattern matched at the head of a string: the separator is taken or skipped.\<close>

definition match_here :: "jsstring \<Rightarrow> bool" where
  "match_here s =
     (case match_ci ''one'' s of
        None \<Rightarrow> False
      | Some r \<Rightarrow>
          (case r of
             [] \<Rightarrow> False
           | c # r' \<Rightarrow> (is_space c \<or> c = of_char CHR ''-'') \<and> match_ci ''shot'' r' \<noteq> None)
          \<or> match_ci ''shot'' r \<noteq> None)"

text \<open>\<open>test\<close> looks for a match starting at any position.\<close>

fun one_shot_test :: "jsstring \<Rightarrow> bool" where
  "one_shot_test [] = False"
| "one_shot_test (c # s) = (match_here (c # s) \<or> one_shot_test s)"

subsection \<open>The response handler (lines 74 to 92)\<close>

definition nullish :: "jsval \<Rightarrow> bool" where
  "nullish v \<longleftrightarrow> v = JNull \<or> v = JUndefined"

text \<open>
  \<open>v.k\<close> and \<open>v[0]\<close> for a \<open>v\<close> that is neither \<open>null\<close> nor \<open>undefined\<close>, and a name \<open>k\<close> that
  no prototype defines (\<open>data\<close>, \<open>attributes\<close>, \<open>chapter\<close>).
\<close>

definition member :: "jsstring \<Rightarrow> jsval \<Rightarrow> jsval" where
  "member k v =
     (case v of
        JObj ps \<Rightarrow> (case map_of ps k of None \<Rightarrow> JUndefined | Some x \<Rightarrow> x)
      | _ \<Rightarrow> JUndefined)"

definition elem0 :: "jsval \<Rightarrow> jsval" where
  "elem0 v =
     (case v of
        JArr xs \<Rightarrow> (case xs of [] \<Rightarrow> JUndefined | x # _ \<Rightarrow> x)
      | JStr s \<Rightarrow> (case s of [] \<Rightarrow> JUndefined | c # _ \<Rightarrow> JStr [c])
      | JObj ps \<Rightarrow> member (js ''0'') v
      | _ \<Rightarrow> JUndefined)"

text \<open>
  Line 79, \<open>j.data?.[0]?.attributes?.chapter\<close>: reading \<open>data\<close> off \<open>null\<close> throws; each
  \<open>?.\<close> ends the chain with \<open>undefined\<close> on \<open>null\<close> or \<open>undefined\<close>.
\<close>

definition chapter_field :: "jsval \<Rightarrow> js_error + jsval" where
  "chapter_field j =
     (if nullish j then Inl TypeError
      else if nullish (member (js ''data'') j) then Inr JUndefined
      else if nullish (elem0 (member (js ''data'') j)) then Inr JUndefined
      else if nullish (member (js ''attributes'') (elem0 (member (js ''data'') j)))
        then Inr JUndefined
      else Inr (member (js ''chapter'')
                 (member (js ''attributes'') (elem0 (member (js ''data'') j)))))"

text \<open>
  Lines 83 to 90, the normalization of the raw field \<open>chap\<close>: the value the promise is
  resolved with, or the error thrown by \<open>String(chap)\<close>. The test is not evaluated when
  \<open>chap == null\<close>.
\<close>

definition normalize_chap :: "jsval \<Rightarrow> js_error + jsval" where
  "normalize_chap chap =
     (if nullish chap then Inr (JStr (js ''1''))
      else (case ToString chap of
              Inl e \<Rightarrow> Inl e
            | Inr s \<Rightarrow>
                (let chap' = (if one_shot_test s then JStr (js ''1'') else chap)
                 in Inr (if nullish chap' then JStr (js ''?'') else chap'))))"

text \<open>
  What the request gives back: \<open>onload\<close> with a status and the parsed body (\<open>None\<close> when
  \<open>JSON.parse\<close> throws), or one of the three failure callbacks.
\<close>

datatype response = Loaded nat "jsval option" | NetFailure | TimedOut | Aborted

text \<open>\<open>doRequest\<close>, lines 63 to 97: how its promise settles.\<close>

definition doRequest :: "response \<Rightarrow> outcome" where
  "doRequest r =
     (case r of
        Loaded status body \<Rightarrow>
          (if status \<noteq> 200 then Inl (HttpError status)
           else (case body of
                   None \<Rightarrow> Inl SyntaxError
                 | Some j \<Rightarrow>
                     (case chapter_field j of
                        Inl e \<Rightarrow> Inl e
                      | Inr chap \<Rightarrow> normalize_chap chap)))
      | NetFailure \<Rightarrow> Inl NetworkError
      | TimedOut \<Rightarrow> Inl TimeoutError
      | Aborted \<Rightarrow> Inl AbortedError)"

subsection \<open>The short retry loop (lines 99 to 103)\<close>

definition SHORT_RETRY_BASE :: nat where
  "SHORT_RETRY_BASE = 2000"

definition SHORT_RETRY_COUNT :: nat where
  "SHORT_RETRY_COUNT = 10"

text \<open>
  The trace of a call of \<open>fetchLatestChapter\<close>: the number of requests sent, and the
  durations of the \<open>sleep\<close> calls of line 101, in order.
\<close>

record trace =
  requests :: nat
  sleeps :: "nat list"

text \<open>
  The loop from \<open>a\<close> on. \<open>net k\<close> is what the network gives for the \<open>k\<close>-th request of the
  call; the identifier passed to \<open>fetchLatestChapter\<close> only enters the URL of the request.
  Every request ends with one of its four callbacks, so every awaited promise settles. The
  \<open>try\<close> returns the value of a fulfilled promise; the \<open>catch\<close> handles a rejected one by
  sleeping and going round again.
\<close>

function attempts :: "(nat \<Rightarrow> response) \<Rightarrow> nat \<Rightarrow> trace \<Rightarrow> jsval \<times> trace" where
  "attempts net a tr =
     (if a < SHORT_RETRY_COUNT then
        (case runJob (doRequest (net (requests tr))) of
           Inr v \<Rightarrow> (v, tr\<lparr>requests := requests tr + 1\<rparr>)
         | Inl e \<Rightarrow>
             attempts net (a + 1)
               (tr\<lparr>requests := requests tr + 1,
                   sleeps := sleeps tr @ [SHORT_RETRY_BASE * 2 ^ a]\<rparr>))
      else (JStr (js ''?''), tr))"
  by pat_completeness auto
termination
  by (relation "measure (\<lambda>(net, a, tr). SHORT_RETRY_COUNT - a)") auto

definition fetchLatestChapter :: "(nat \<Rightarrow> response) \<Rightarrow> jsval \<times> trace" where
  "fetchLatestChapter net = attempts net 0 \<lparr>requests = 0, sleeps = []\<rparr>"

section \<open>Card logic (lines 109 to 171)\<close>

subsection \<open>Numbers and \<open>parseFloat\<close>\<close>

text \<open>
  A Number: \<open>NaN\<close>, an infinity, or a finite double, given by its value. The two zeros
  compare equal and are both \<open>Fin 0\<close>.
\<close>

datatype jsnum = NaN | NegInf | PosInf | Fin rat

text \<open>The comparison \<open>a < b\<close> of two Numbers: false when either is \<open>NaN\<close>.\<close>

fun js_less :: "jsnum \<Rightarrow> jsnum \<Rightarrow> bool" where
  "js_less NaN b = False"
| "js_less a NaN = False"
| "js_less PosInf b = False"
| "js_less NegInf b = (b \<noteq> NegInf)"
| "js_less (Fin x) NegInf = False"
| "js_less (Fin x) PosInf = True"
| "js_less (Fin x) (Fin y) = (x < y)"

text \<open>
  The Number value of a positive rational \<open>n / d\<close>: the nearest double, ties to the even
  significand, and an infinity from \<open>2 ^ 1024 - 2 ^ 970\<close> on. \<open>ilog2 n\<close> is the position of
  the leading bit of \<open>n\<close>, \<open>floor_log2 n d\<close> the integer part of the binary logarithm of
  \<open>n / d\<close>. A double has a significand of 53 bits and an exponent of at least \<open>- 1074\<close>, so
  \<open>n / d\<close> is rounded to a multiple of \<open>2 ^ binary_exponent n d\<close>; \<open>scaled n d e\<close> is
  \<open>n / (d * 2 ^ e)\<close> rounded to an integer.
\<close>

function ilog2 :: "int \<Rightarrow> int" where
  "ilog2 n = (if n < 2 then 0 else 1 + ilog2 (n div 2))"
  by pat_completeness auto
termination
  by (relation "measure nat") auto

declare ilog2.simps [simp del]

definition floor_log2 :: "int \<Rightarrow> int \<Rightarrow> int" where
  "floor_log2 n d =
     (if ilog2 d \<le> ilog2 n
      then (if 2 ^ nat (ilog2 n - ilog2 d) * d \<le> n then ilog2 n - ilog2 d
            else ilog2 n - ilog2 d - 1)
      else (if d \<le> 2 ^ nat (ilog2 d - ilog2 n) * n then ilog2 n - ilog2 d
            else ilog2 n - ilog2 d - 1))"

definition binary_exponent :: "int \<Rightarrow> int \<Rightarrow> int" where
  "binary_exponent n d = max (floor_log2 n d - 52) (- 1074)"

definition round_div :: "int \<Rightarrow> int \<Rightarrow> int" where
  "round_div n d =
     (if 2 * (n mod d) < d then n div d
      else if d < 2 * (n mod d) then n div d + 1
      else if even (n div d) then n div d else n div d + 1)"

definition scaled :: "int \<Rightarrow> int \<Rightarrow> int \<Rightarrow> int" where
  "scaled n d e =
     (if e < 0 then round_div (n * 2 ^ nat (- e)) d else round_div n (d * 2 ^ nat e))"

definition pow2 :: "int \<Rightarrow> rat" where
  "pow2 e = (if 0 \<le> e then 2 ^ nat e else 1 / 2 ^ nat (- e))"

text \<open>
  The Number value of \<open>n / d\<close>, negated when \<open>neg\<close>, for \<open>0 \<le> n\<close> and \<open>0 < d\<close>. The rounded
  value reaches \<open>2 ^ 1024\<close> exactly when the exponent exceeds 971, or is 971 with the
  significand rounded up to \<open>2 ^ 53\<close>.
\<close>

definition to_double :: "bool \<Rightarrow> int \<Rightarrow> int \<Rightarrow> jsnum" where
  "to_double neg n d =
     (if n = 0 then Fin 0
      else if 971 < binary_exponent n d \<or>
              (binary_exponent n d = 971 \<and> scaled n d 971 = 2 ^ 53)
        then (if neg then NegInf else PosInf)
      else Fin ((if neg then - 1 else 1) * of_int (scaled n d (binary_exponent n d))
                  * pow2 (binary_exponent n d)))"

definition is_digit :: "nat \<Rightarrow> bool" where
  "is_digit c \<longleftrightarrow> 48 \<le> c \<and> c \<le> 57"

definition digits_value :: "jsstring \<Rightarrow> nat" where
  "digits_value ds = foldl (\<lambda>a c. 10 * a + (c - 48)) 0 ds"

text \<open>
  The exponent of the ExponentPart at the head of a string: \<open>e\<close> or \<open>E\<close>, an optional sign,
  at least one digit. Without such a part the exponent is 0.
\<close>

definition exponent :: "jsstring \<Rightarrow> int" where
  "exponent s =
     (case s of
        [] \<Rightarrow> 0
      | c # r \<Rightarrow>
          (if c = of_char CHR ''e'' \<or> c = of_char CHR ''E'' then
             (case r of
                [] \<Rightarrow> 0
              | d # r' \<Rightarrow>
                  (if d = of_char CHR ''-'' then
                     (if takeWhile is_digit r' = [] then 0
                      else - int (digits_value (takeWhile is_digit r')))
                   else if d = of_char CHR ''+'' then int (digits_value (takeWhile is_digit r'))
                   else int (digits_value (takeWhile is_digit r))))
           else 0))"

text \<open>
  The longest prefix that is an unsigned decimal literal other than \<open>Infinity\<close>: digits, an
  optional point and fraction digits, an optional exponent; at least one digit before the
  exponent. The result \<open>(m, k)\<close> stands for the value \<open>m * 10 ^ k\<close>: \<open>m\<close> is the number
  written by the digits before and after the point, \<open>k\<close> the exponent less the number of
  fraction digits. \<open>None\<close> when no prefix is a literal.
\<close>

definition unsigned_literal :: "jsstring \<Rightarrow> (int \<times> int) option" where
  "unsigned_literal s =
     (let ip = takeWhile is_digit s;
          r = dropWhile is_digit s;
          point = (r \<noteq> [] \<and> hd r = of_char CHR ''.'');
          fp = (if point then takeWhile is_digit (tl r) else []);
          r' = (if point then dropWhile is_digit (tl r) else r)
      in if ip = [] \<and> fp = [] then None
         else Some (int (digits_value (ip @ fp)), exponent r' - int (length fp)))"

text \<open>
  \<open>parseFloat\<close> of a string: leading white space is skipped, a sign is read, and the
  literal that follows is converted to the nearest double, as the engines that run the
  script do.
\<close>

definition parseFloat :: "jsstring \<Rightarrow> jsnum" where
  "parseFloat str =
     (let t = dropWhile is_space str;
          neg = (t \<noteq> [] \<and> hd t = of_char CHR ''-'');
          u = (if t \<noteq> [] \<and> (hd t = of_char CHR ''-'' \<or> hd t = of_char CHR ''+'') then tl t else t)
      in if take 8 u = js ''Infinity'' then (if neg then NegInf else PosInf)
         else (case unsigned_literal u of
                 None \<Rightarrow> NaN
               | Some (m, k) \<Rightarrow>
                   (if 0 \<le> k then to_double neg (m * 10 ^ nat k) 1
                    else to_double neg m (10 ^ nat (- k)))))"

subsection \<open>A card and the script's state about it\<close>

definition LONG_RETRY_BASE :: nat where
  "LONG_RETRY_BASE = 5000"

definition LONG_RETRY_MAX :: nat where
  "LONG_RETRY_MAX = 6"

text \<open>
  One card of the page, with what the script holds about it.
  \<open>attached\<close>: \<open>document.body.contains(card)\<close>.
  \<open>cover\<close>: the card has a \<open>.manga-card-cover\<close> element.
  \<open>href\<close>: the \<open>href\<close> of the first \<open>a[href*="/title/"]\<close> in the card, if there is one.
  \<open>badge\<close>: the text of the badge in the cover, if there is a badge.
  \<open>dataset_chap\<close>: \<open>card.dataset.chap\<close>, \<open>None\<close> while unset.
  \<open>display\<close>: \<open>card.style.display\<close>.
  \<open>processed\<close>: the card is in the set \<open>processed\<close>.
  \<open>minChapters\<close>: the variable of line 37.
  \<open>awaiting\<close>: a call of \<open>tryFillBadge\<close> is suspended at line 118, with these \<open>mangaId\<close>
  and \<open>longTry\<close>.
  \<open>timer\<close>: the timer set at line 133 has not fired yet: its delay, and the \<open>mangaId\<close> and
  \<open>longTry\<close> of the call it will make.
  \<open>resolver_calls\<close>: the arguments of the calls of \<open>fetchLatestChapter\<close> so far.
  \<open>timeouts\<close>: the delays of the calls of \<open>setTimeout\<close> so far.
  The position style of the cover and the stale badge removed at line 147 are not tracked.
\<close>

record page =
  attached :: bool
  cover :: bool
  href :: "jsstring option"
  badge :: "jsstring option"
  dataset_chap :: "jsstring option"
  display :: jsstring
  processed :: bool
  minChapters :: jsnum
  awaiting :: "(jsstring \<times> nat) option"
  timer :: "(nat \<times> jsstring \<times> nat) option"
  resolver_calls :: "jsstring list"
  timeouts :: "nat list"

text \<open>A card the page has just inserted, before the script has seen it.\<close>

definition new_card :: "bool \<Rightarrow> jsstring option \<Rightarrow> jsnum \<Rightarrow> page" where
  "new_card c h m =
     \<lparr>attached = True, cover = c, href = h, badge = None, dataset_chap = None, display = [],
      processed = False, minChapters = m, awaiting = None, timer = None,
      resolver_calls = [], timeouts = []\<rparr>"

text \<open>
  Line 111, \<open>parseFloat(card.dataset.chap)\<close>: an unset \<open>dataset.chap\<close> reads as
  \<open>undefined\<close>, which \<open>parseFloat\<close> converts to a string.
\<close>

definition chap_number :: "page \<Rightarrow> jsnum" where
  "chap_number s = parseFloat (case dataset_chap s of None \<Rightarrow> js ''undefined'' | Some d \<Rightarrow> d)"

text \<open>\<open>applyVisibility\<close>, lines 110 to 114.\<close>

definition applyVisibility :: "page \<Rightarrow> page" where
  "applyVisibility s =
     s\<lparr>display :=
         (if chap_number s \<noteq> NaN \<and> js_less (Fin 0) (minChapters s) \<and>
             js_less (chap_number s) (minChapters s)
          then js ''none'' else [])\<rparr>"

text \<open>
  \<open>tryFillBadge\<close>, lines 117 and 118, up to the \<open>await\<close>: a card that is not in the document
  ends the call; otherwise the resolver is called and the call is suspended.
\<close>

definition tryFillBadge :: "jsstring \<Rightarrow> nat \<Rightarrow> page \<Rightarrow> page" where
  "tryFillBadge mangaId longTry s =
     (if \<not> attached s then s
      else s\<lparr>awaiting := Some (mangaId, longTry),
             resolver_calls := resolver_calls s @ [mangaId]\<rparr>)"

text \<open>
  \<open>tryFillBadge\<close>, lines 121 to 139, once the resolver has given \<open>chap\<close>. Assigning to
  \<open>textContent\<close> and to \<open>dataset.chap\<close> converts the value to a string; a conversion that
  throws ends the call at line 122. The ellipsis is the code unit 8230.
\<close>

definition tryFillBadge_resume :: "jsval \<Rightarrow> jsstring \<Rightarrow> nat \<Rightarrow> page \<Rightarrow> page" where
  "tryFillBadge_resume chap mangaId longTry s =
     (if chap \<noteq> JStr (js ''?'') \<and> \<not> nullish chap then
        (case ToString chap of
           Inl e \<Rightarrow> s
         | Inr str \<Rightarrow> applyVisibility (s\<lparr>badge := Some str, dataset_chap := Some str\<rparr>))
      else if longTry < LONG_RETRY_MAX then
        s\<lparr>badge := Some [8230], dataset_chap := Some [],
          timer := Some (LONG_RETRY_BASE * 2 ^ longTry, mangaId, longTry + 1),
          timeouts := timeouts s @ [LONG_RETRY_BASE * 2 ^ longTry]\<rparr>
      else s\<lparr>badge := Some (js ''?''), dataset_chap := Some []\<rparr>)"

text \<open>\<open>s.split('/')\<close>.\<close>

fun split_on :: "nat \<Rightarrow> jsstring \<Rightarrow> jsstring list" where
  "split_on sep [] = [[]]"
| "split_on sep (c # s) =
     (if c = sep then [] # split_on sep s
      else (case split_on sep s of [] \<Rightarrow> [[c]] | p # ps \<Rightarrow> (c # p) # ps))"

text \<open>
  Lines 161 to 166: the third segment of the \<open>href\<close>; \<open>None\<close> when \<open>mangaId\<close> is
  \<open>undefined\<close> or the empty string, the values for which \<open>!mangaId\<close> holds.
\<close>

definition mangaId_of :: "jsstring option \<Rightarrow> jsstring option" where
  "mangaId_of h =
     (case h of
        None \<Rightarrow> None
      | Some u \<Rightarrow>
          (case drop 2 (split_on (of_char CHR ''/'') u) of
             [] \<Rightarrow> None
           | m # _ \<Rightarrow> if m = [] then None else Some m))"

text \<open>\<open>enhanceCard\<close>, lines 142 to 171.\<close>

definition enhanceCard :: "page \<Rightarrow> page" where
  "enhanceCard s =
     (if processed s then s
      else if \<not> cover s then s\<lparr>processed := True\<rparr>
      else (case mangaId_of (href s) of
              None \<Rightarrow> s\<lparr>processed := True, badge := Some (js ''?'')\<rparr>
            | Some mangaId \<Rightarrow>
                tryFillBadge mangaId 0 (s\<lparr>processed := True, badge := Some [8230]\<rparr>)))"

text \<open>
  What can happen to a card: the observer hands it to \<open>enhanceCard\<close>; the pending timer
  fires; the awaited resolver gives a value; the page takes the card out of the document or
  puts it back; the user edits the threshold (lines 218 to 222, which reach the cards in
  the document).
\<close>

datatype action = Discover | Fire | Return jsval | Detach | Attach | Input jsnum

fun act :: "action \<Rightarrow> page \<Rightarrow> page" where
  "act Discover s = enhanceCard s"
| "act Fire s =
     (case timer s of
        None \<Rightarrow> s
      | Some (delay, mangaId, longTry) \<Rightarrow> tryFillBadge mangaId longTry (s\<lparr>timer := None\<rparr>))"
| "act (Return chap) s =
     (case awaiting s of
        None \<Rightarrow> s
      | Some (mangaId, longTry) \<Rightarrow>
          tryFillBadge_resume chap mangaId longTry (s\<lparr>awaiting := None\<rparr>))"
| "act Detach s = s\<lparr>attached := False\<rparr>"
| "act Attach s = s\<lparr>attached := True\<rparr>"
| "act (Input v) s =
     (let s' = s\<lparr>minChapters := (if v = NaN \<or> v = Fin 0 then Fin 0 else v)\<rparr>
      in if attached s' then applyVisibility s' else s')"

definition run :: "action list \<Rightarrow> page \<Rightarrow> page" where
  "run as s = foldl (\<lambda>s a. act a s) s as"

text \<open>
  A session left to itself: with the \<open>k\<close>-th call of the resolver giving \<open>resolver k\<close>
  (counting from 1), the awaited call returns or else the pending timer fires, at most
  \<open>n\<close> times.
\<close>

fun drive :: "(nat \<Rightarrow> jsval) \<Rightarrow> nat \<Rightarrow> page \<Rightarrow> page" where
  "drive resolver 0 s = s"
| "drive resolver (Suc n) s =
     (if awaiting s \<noteq> None
        then drive resolver n (act (Return (resolver (length (resolver_calls s)))) s)
      else if timer s \<noteq> None then drive resolver n (act Fire s)
      else s)"

section \<open>Properties of the job runner\<close>

lemma count_admit: "inv_count s \<Longrightarrow> inv_count (admit t s)"
  by (auto simp: inv_count_def admit_def split: list.splits)

lemma count_submit: "inv_count s \<Longrightarrow> inv_count (submit s)"
  unfolding submit_def by (rule count_admit) (simp add: inv_count_def)

lemma count_wake: "inv_count s \<Longrightarrow> inv_count (wake t s)"
  unfolding wake_def by (auto intro!: count_admit) (simp add: inv_count_def)

lemma length_filter_fst:
  "distinct (map fst xs) \<Longrightarrow> map_of xs t = Some e \<Longrightarrow>
   length (filter (\<lambda>r. fst r \<noteq> t) xs) = length xs - 1"
proof (induction xs)
  case Nil
  then show ?case by simp
next
  case (Cons x xs)
  show ?case
  proof (cases "fst x = t")
    case True
    with Cons.prems have "t \<notin> fst ` set xs" by auto
    then have "filter (\<lambda>r. fst r \<noteq> t) xs = xs" by (auto simp: filter_id_conv)
    with True show ?thesis by simp
  next
    case False
    with Cons.prems have m: "map_of xs t = Some e" by (cases x) auto
    then have "xs \<noteq> []" by auto
    then have "length xs \<ge> 1" by (cases xs) auto
    with Cons.IH Cons.prems m False show ?thesis by simp
  qed
qed

lemma count_settle: "inv_count s \<Longrightarrow> inv_tasks s \<Longrightarrow> inv_count (settle t out s)"
proof (cases "map_of (running s) t")
  case None
  assume "inv_count s"
  with None show ?thesis by (simp add: settle_def)
next
  case (Some e)
  assume c: "inv_count s" and d: "inv_tasks s"
  from d have "distinct (map fst (running s))" by (simp add: inv_tasks_def)
  from length_filter_fst [OF this Some]
  have l: "length (filter (\<lambda>r. fst r \<noteq> t) (running s)) = length (running s) - 1" .
  from Some have "running s \<noteq> []" by auto
  then have "length (running s) \<ge> 1" by (cases "running s") auto
  with c l Some show ?thesis by (simp add: settle_def inv_count_def)
qed

lemma admit_cases:
  obtains (sleep) "active s \<ge> CONCURRENCY_LIMIT" "admit t s = s\<lparr>sleeping := sleeping s @ [t]\<rparr>"
  | (die) "active s < CONCURRENCY_LIMIT" "queue s = []" "admit t s = s"
  | (start) e q where "active s < CONCURRENCY_LIMIT" "queue s = e # q"
      "admit t s = s\<lparr>queue := q, active := active s + 1, running := running s @ [(t, e)]\<rparr>"
  by (cases "active s \<ge> CONCURRENCY_LIMIT"; cases "queue s"; force simp: admit_def not_le)

lemma wait_admit:
  assumes "length (queue s) = Suc (length (sleeping s))"
  shows "inv_wait (admit t s)"
proof (cases rule: admit_cases [of s t])
  case sleep
  with assms show ?thesis by (simp add: inv_wait_def)
next
  case die
  with assms show ?thesis by simp
next
  case (start e q)
  with assms show ?thesis by (simp add: inv_wait_def)
qed

lemma wait_submit: "inv_wait s \<Longrightarrow> inv_wait (submit s)"
  unfolding submit_def by (rule wait_admit) (simp add: inv_wait_def)

lemma wait_wake: "inv_wait s \<Longrightarrow> inv_wait (wake t s)"
proof (cases "t \<in> set (sleeping s)")
  case False
  assume "inv_wait s"
  with False show ?thesis by (simp add: wake_def)
next
  case True
  assume w: "inv_wait s"
  from True have "length (sleeping s) > 0" by (cases "sleeping s") auto
  with True have "length (sleeping s) = Suc (length (remove1 t (sleeping s)))"
    by (simp add: length_remove1)
  with w have "inv_wait (admit t (s\<lparr>sleeping := remove1 t (sleeping s)\<rparr>))"
    by (intro wait_admit) (simp add: inv_wait_def)
  with True show ?thesis by (simp add: wake_def)
qed

lemma wait_settle: "inv_wait s \<Longrightarrow> inv_wait (settle t out s)"
  by (auto simp: inv_wait_def settle_def split: option.splits)

lemma tasks_admit:
  assumes "distinct (sleeping s @ map fst (running s))"
    and "\<forall>u \<in> set (sleeping s @ map fst (running s)). u < calls s"
    and "t \<notin> set (sleeping s @ map fst (running s))" and "t < calls s"
  shows "inv_tasks (admit t s)"
proof (cases rule: admit_cases [of s t])
  case sleep
  with assms show ?thesis by (auto simp: inv_tasks_def)
next
  case die
  with assms show ?thesis by (auto simp: inv_tasks_def)
next
  case (start e q)
  with assms show ?thesis by (auto simp: inv_tasks_def)
qed

lemma tasks_submit: "inv_tasks s \<Longrightarrow> inv_tasks (submit s)"
  unfolding submit_def by (rule tasks_admit) (auto simp: inv_tasks_def less_Suc_eq)

lemma tasks_wake: "inv_tasks s \<Longrightarrow> inv_tasks (wake t s)"
proof (cases "t \<in> set (sleeping s)")
  case False
  assume "inv_tasks s"
  with False show ?thesis by (simp add: wake_def)
next
  case True
  assume w: "inv_tasks s"
  then have d: "distinct (sleeping s)" by (simp add: inv_tasks_def)
  then have "t \<notin> set (remove1 t (sleeping s))" by simp
  moreover have "set (remove1 t (sleeping s)) \<subseteq> set (sleeping s)"
    by (rule set_remove1_subset)
  moreover from d have "distinct (remove1 t (sleeping s))" by simp
  ultimately have "inv_tasks (admit t (s\<lparr>sleeping := remove1 t (sleeping s)\<rparr>))"
    using w True by (intro tasks_admit) (auto simp: inv_tasks_def)
  with True show ?thesis by (simp add: wake_def)
qed

lemma tasks_settle: "inv_tasks s \<Longrightarrow> inv_tasks (settle t out s)"
  by (auto simp: inv_tasks_def settle_def distinct_map_filter split: option.splits)

lemma entries_admit:
  assumes "inv_entries s"
  shows "inv_entries (admit t s)"
proof (cases rule: admit_cases [of s t])
  case sleep
  with assms show ?thesis by (simp add: inv_entries_def)
next
  case die
  with assms show ?thesis by simp
next
  case (start e q)
  with assms show ?thesis by (auto simp: inv_entries_def)
qed

lemma fresh_job: "\<forall>e \<in> set xs. job e < n \<Longrightarrow> n \<notin> set (map job xs)"
  by (induction xs) auto

lemma entries_submit:
  assumes "inv_entries s"
  shows "inv_entries (submit s)"
proof -
  let ?s = "s\<lparr>queue := queue s @ [\<lparr>job = calls s, resolve = calls s\<rparr>], calls := calls s + 1\<rparr>"
  from assms have lt: "\<forall>e \<in> set (queue s @ map snd (running s)). job e < calls s"
    by (simp add: inv_entries_def)
  then have "calls s \<notin> set (map job (queue s @ map snd (running s)))" by (rule fresh_job)
  moreover from assms have "distinct (map job (queue s @ map snd (running s)))"
    by (simp add: inv_entries_def)
  ultimately have "distinct (map job (queue ?s @ map snd (running ?s)))"
    by auto
  moreover from assms lt have "\<forall>e \<in> set (queue ?s @ map snd (running ?s)).
        resolve e = job e \<and> job e < calls ?s \<and> outcomes ?s (job e) = None"
    by (auto simp: inv_entries_def less_Suc_eq)
  moreover from assms have "\<forall>p \<ge> calls ?s. outcomes ?s p = None"
    by (simp add: inv_entries_def)
  ultimately have "inv_entries ?s" unfolding inv_entries_def by blast
  then show ?thesis unfolding submit_def by (rule entries_admit)
qed

lemma entries_wake: "inv_entries s \<Longrightarrow> inv_entries (wake t s)"
  unfolding wake_def by (auto intro!: entries_admit) (simp add: inv_entries_def)

lemma settled_admit: "inv_settled s \<Longrightarrow> inv_settled (admit t s)"
  by (cases rule: admit_cases [of s t]) (simp_all add: inv_settled_def)

lemma settled_submit: "inv_settled s \<Longrightarrow> inv_settled (submit s)"
  unfolding submit_def by (rule settled_admit) (simp add: inv_settled_def)

lemma settled_wake: "inv_settled s \<Longrightarrow> inv_settled (wake t s)"
  unfolding wake_def by (auto intro!: settled_admit) (simp add: inv_settled_def)

lemma running_entry:
  assumes "inv_entries s" and "map_of (running s) t = Some e"
  shows "resolve e = job e" and "outcomes s (job e) = None"
proof -
  from assms(2) have "(t, e) \<in> set (running s)" by (rule map_of_SomeD)
  then have "e \<in> set (queue s @ map snd (running s))" by force
  with assms(1) show "resolve e = job e" and "outcomes s (job e) = None"
    unfolding inv_entries_def by blast+
qed

lemma others_differ:
  assumes "distinct (map (job \<circ> snd) xs)" and "map_of xs t = Some e"
    and "r \<in> set (filter (\<lambda>r. fst r \<noteq> t) xs)"
  shows "job (snd r) \<noteq> job e"
proof
  assume eq: "job (snd r) = job e"
  from assms(2) have m: "(t, e) \<in> set xs" by (rule map_of_SomeD)
  from assms(3) have r: "r \<in> set xs" and ne: "fst r \<noteq> t" by auto
  from assms(1) have "inj_on (job \<circ> snd) (set xs)" by (simp add: distinct_map)
  moreover from eq have "(job \<circ> snd) r = (job \<circ> snd) (t, e)" by simp
  ultimately have "r = (t, e)" using r m by (rule inj_onD)
  with ne show False by simp
qed

lemma entries_settle:
  assumes "inv_entries s"
  shows "inv_entries (settle t out s)"
proof (cases "map_of (running s) t")
  case None
  with assms show ?thesis by (simp add: settle_def)
next
  case (Some e)
  let ?rs = "filter (\<lambda>r. fst r \<noteq> t) (running s)"
  from assms have d: "distinct (map job (queue s))" "distinct (map (job \<circ> snd) (running s))"
    and dis: "job ` set (queue s) \<inter> (job \<circ> snd) ` set (running s) = {}"
    by (auto simp: inv_entries_def)
  from Some have m: "(t, e) \<in> set (running s)" by (rule map_of_SomeD)
  have q: "job x \<noteq> job e" if "x \<in> set (queue s)" for x
    using dis m that by force
  have r: "job (snd x) \<noteq> job e" if "x \<in> set ?rs" for x
    using others_differ [OF d(2) Some that] .
  from d(2) have "distinct (map (job \<circ> snd) ?rs)" by (rule distinct_map_filter)
  moreover from dis have "job ` set (queue s) \<inter> (job \<circ> snd) ` set ?rs = {}" by auto
  ultimately have "distinct (map job (queue s @ map snd ?rs))"
    using d(1) by simp
  moreover have "\<forall>x \<in> set (queue s @ map snd ?rs).
      resolve x = job x \<and> job x < calls s \<and> ((outcomes s)(job e \<mapsto> out)) (job x) = None"
    using assms q r by (auto simp: inv_entries_def)
  moreover have "\<forall>p \<ge> calls s. ((outcomes s)(job e \<mapsto> out)) p = None"
    using assms m by (force simp: inv_entries_def)
  ultimately show ?thesis using Some by (simp add: settle_def inv_entries_def)
qed

lemma settled_settle:
  assumes "inv_settled s" and "inv_entries s"
  shows "inv_settled (settle t out s)"
proof (cases "map_of (running s) t")
  case None
  with assms show ?thesis by (simp add: settle_def)
next
  case (Some e)
  from running_entry [OF assms(2) Some]
  have eq: "resolve e = job e" and un: "outcomes s (job e) = None" .
  from assms(1) un have "promises s (job e) = None" by (simp add: inv_settled_def)
  with assms(1) Some eq show ?thesis by (simp add: settle_def inv_settled_def)
qed

lemma inv_init: "runner_inv init"
  by (simp add: runner_inv_def init_def inv_count_def inv_wait_def inv_tasks_def
      inv_entries_def inv_settled_def CONCURRENCY_LIMIT_def)

lemma inv_step: "runner_inv s \<Longrightarrow> runner_inv (step ev s)"
proof (cases ev)
  case Submit
  assume "runner_inv s"
  with Submit show ?thesis
    by (simp add: runner_inv_def count_submit wait_submit tasks_submit entries_submit
        settled_submit)
next
  case (Wake t)
  assume "runner_inv s"
  with Wake show ?thesis
    by (simp add: runner_inv_def count_wake wait_wake tasks_wake entries_wake settled_wake)
next
  case (Settle t out)
  assume "runner_inv s"
  with Settle show ?thesis
    by (simp add: runner_inv_def count_settle wait_settle tasks_settle entries_settle
        settled_settle)
qed

lemma inv_exec: "runner_inv s \<Longrightarrow> runner_inv (exec evs s)"
  unfolding exec_def by (induction evs arbitrary: s) (simp_all add: inv_step)

lemma inv_reachable: "runner_inv (exec evs init)"
  by (rule inv_exec) (rule inv_init)

text \<open>
  A task that wakes finds an entry to take: the empty-queue branch of \<open>admit\<close> is never
  reached.
\<close>

lemma wake_finds_entry:
  assumes "t \<in> set (sleeping (exec evs init))"
  shows "queue (exec evs init) \<noteq> []"
proof -
  have "inv_wait (exec evs init)"
    using inv_reachable [of evs] by (simp add: runner_inv_def)
  moreover from assms have "sleeping (exec evs init) \<noteq> []" by auto
  ultimately show ?thesis by (auto simp: inv_wait_def)
qed

lemma starts_below_limit:
  assumes "length (running (step ev s)) > length (running s)"
  shows "active s < CONCURRENCY_LIMIT \<and> active (step ev s) = active s + 1"
proof (cases ev)
  case Submit
  with assms show ?thesis
    by (auto simp: submit_def admit_def split: if_splits list.splits)
next
  case (Wake t)
  with assms show ?thesis
    by (auto simp: wake_def admit_def split: if_splits list.splits)
next
  case (Settle t out)
  have "\<not> length (running s) < length (filter (\<lambda>r. fst r \<noteq> t) (running s))"
    by (simp add: not_less)
  with assms Settle show ?thesis
    by (simp add: settle_def split: option.splits)
qed

text \<open>
  Claim C1. After any sequence of submissions, timer wake-ups and job settlements, the
  counter \<open>active\<close> equals the number of jobs that have started and not finished, and it
  never exceeds \<open>CONCURRENCY_LIMIT\<close>. A step that starts a job is taken only with
  \<open>active\<close> below the limit and increments it; when a running job settles, with a value
  or with a rejection alike, \<open>active\<close> is decremented and the job leaves the running set.
\<close>

theorem runJob_concurrency_bound:
  "active (exec evs init) = int (length (running (exec evs init))) \<and>
   active (exec evs init) \<le> CONCURRENCY_LIMIT \<and>
   (length (running (exec evs init)) < length (running (step ev (exec evs init))) \<longrightarrow>
      active (exec evs init) < CONCURRENCY_LIMIT \<and>
      active (step ev (exec evs init)) = active (exec evs init) + 1) \<and>
   (map_of (running (exec evs init)) t = Some e \<longrightarrow>
      active (settle t out (exec evs init)) = active (exec evs init) - 1 \<and>
      length (running (settle t out (exec evs init))) = length (running (exec evs init)) - 1)"
proof -
  let ?s = "exec evs init"
  have i: "runner_inv ?s" by (rule inv_reachable)
  then have c: "inv_count ?s" and d: "distinct (map fst (running ?s))"
    by (simp_all add: runner_inv_def inv_tasks_def)
  have "active (settle t out ?s) = active ?s - 1 \<and>
      length (running (settle t out ?s)) = length (running ?s) - 1"
    if "map_of (running ?s) t = Some e"
    using that length_filter_fst [OF d that] by (simp add: settle_def)
  with c starts_below_limit [of ?s ev] show ?thesis
    by (simp add: inv_count_def)
qed

theorem runJob_concurrency_bound_witness:
  "length (running (exec [Submit] init)) < length (running (step Submit (exec [Submit] init))) \<and>
   map_of (running (exec [Submit] init)) 0 = Some \<lparr>job = 0, resolve = 0\<rparr> \<and>
   active (exec [Submit] init) = 1 \<and>
   active (step Submit (exec [Submit] init)) = 2 \<and>
   active (settle 0 (Inl NetworkError) (exec [Submit] init)) = 0"
  using runJob_concurrency_bound [of "[Submit]" Submit 0 "\<lparr>job = 0, resolve = 0\<rparr>" "Inl NetworkError"]
  by (simp add: exec_def init_def submit_def admit_def CONCURRENCY_LIMIT_def)

text \<open>
  Claim C3. After any sequence of events, no promise returned by \<open>runJob\<close> is rejected, and
  the promise of a job that threw or rejected is fulfilled with \<open>null\<close>.
\<close>

theorem runJob_never_rejects:
  "promises (exec evs init) p \<noteq> Some (Inl err) \<and>
   (outcomes (exec evs init) p = Some (Inl err') \<longrightarrow>
      promises (exec evs init) p = Some (Inr JNull))"
proof -
  have "inv_settled (exec evs init)"
    using inv_reachable [of evs] by (simp add: runner_inv_def)
  then show ?thesis
    by (auto simp: inv_settled_def runJob_def runJob_value_def)
qed

theorem runJob_never_rejects_witness:
  "outcomes (exec [Submit, Settle 0 (Inl NetworkError)] init) 0 = Some (Inl NetworkError) \<and>
   promises (exec [Submit, Settle 0 (Inl NetworkError)] init) 0 = Some (Inr JNull)"
  using runJob_never_rejects [of "[Submit, Settle 0 (Inl NetworkError)]" 0 NetworkError NetworkError]
  by (simp add: exec_def init_def submit_def admit_def settle_def runJob_def runJob_value_def
      CONCURRENCY_LIMIT_def)

text \<open>
  Nothing in \<open>runJob\<close> looks at the card a job works for: a job that waits in the queue
  while six others run is started, and its request sent, once a slot is free and its task
  wakes.
\<close>

lemma queued_job_starts_later:
  "queue (exec [Submit, Submit, Submit, Submit, Submit, Submit, Submit] init)
     = [\<lparr>job = 6, resolve = 6\<rparr>] \<and>
   map_of (running (exec [Submit, Submit, Submit, Submit, Submit, Submit, Submit] init)) 6 = None \<and>
   map_of (running (exec [Submit, Submit, Submit, Submit, Submit, Submit, Submit,
      Settle 0 (Inl NetworkError), Wake 6] init)) 6 = Some \<lparr>job = 6, resolve = 6\<rparr>"
  by (simp add: exec_def init_def submit_def admit_def settle_def wake_def runJob_def
      runJob_value_def CONCURRENCY_LIMIT_def)

text \<open>
  Claim C10. After any sequence of events, every entry waiting in the queue or held by a
  running task pairs a job with the \<open>resolve\<close> of the call that submitted it, and the promise
  returned by the \<open>p\<close>-th call of \<open>runJob\<close> has the outcome of the job passed to that same
  call: it is pending while that job has not settled, fulfilled with the value \<open>v\<close> once
  that job is fulfilled with \<open>v\<close>, and fulfilled with \<open>null\<close> once that job is rejected;
  whichever task took the entry off the queue.
\<close>

theorem runJob_own_outcome:
  "(\<forall>en \<in> set (queue (exec evs init)) \<union> snd ` set (running (exec evs init)).
      resolve en = job en) \<and>
   (outcomes (exec evs init) p = None \<longrightarrow> promises (exec evs init) p = None) \<and>
   (outcomes (exec evs init) p = Some (Inr v) \<longrightarrow> promises (exec evs init) p = Some (Inr v)) \<and>
   (outcomes (exec evs init) p = Some (Inl err) \<longrightarrow>
      promises (exec evs init) p = Some (Inr JNull))"
proof -
  have i: "runner_inv (exec evs init)" by (rule inv_reachable)
  then have "promises (exec evs init) p = map_option runJob (outcomes (exec evs init) p)"
    by (simp add: runner_inv_def inv_settled_def)
  moreover from i have "\<forall>en \<in> set (queue (exec evs init)) \<union> snd ` set (running (exec evs init)).
      resolve en = job en"
    by (simp add: runner_inv_def inv_entries_def)
  ultimately show ?thesis
    by (simp add: runJob_def runJob_value_def)
qed

theorem runJob_own_outcome_witness:
  "map_of (running (exec [Submit, Submit, Submit, Submit, Submit, Submit, Submit,
      Settle 0 (Inr (JStr (js ''3''))), Submit] init)) 7 = Some \<lparr>job = 6, resolve = 6\<rparr> \<and>
   outcomes (exec [Submit, Submit, Submit, Submit, Submit, Submit, Submit,
      Settle 0 (Inr (JStr (js ''3''))), Submit, Settle 7 (Inr (JStr (js ''87.5''))),
      Settle 1 (Inl TimeoutError)] init) 6 = Some (Inr (JStr (js ''87.5''))) \<and>
   promises (exec [Submit, Submit, Submit, Submit, Submit, Submit, Submit,
      Settle 0 (Inr (JStr (js ''3''))), Submit, Settle 7 (Inr (JStr (js ''87.5''))),
      Settle 1 (Inl TimeoutError)] init) 6 = Some (Inr (JStr (js ''87.5''))) \<and>
   outcomes (exec [Submit, Submit, Submit, Submit, Submit, Submit, Submit,
      Settle 0 (Inr (JStr (js ''3''))), Submit, Settle 7 (Inr (JStr (js ''87.5''))),
      Settle 1 (Inl TimeoutError)] init) 1 = Some (Inl TimeoutError) \<and>
   promises (exec [Submit, Submit, Submit, Submit, Submit, Submit, Submit,
      Settle 0 (Inr (JStr (js ''3''))), Submit, Settle 7 (Inr (JStr (js ''87.5''))),
      Settle 1 (Inl TimeoutError)] init) 1 = Some (Inr JNull) \<and>
   outcomes (exec [Submit, Submit, Submit, Submit, Submit, Submit, Submit,
      Settle 0 (Inr (JStr (js ''3''))), Submit, Settle 7 (Inr (JStr (js ''87.5''))),
      Settle 1 (Inl TimeoutError)] init) 7 = None \<and>
   promises (exec [Submit, Submit, Submit, Submit, Submit, Submit, Submit,
      Settle 0 (Inr (JStr (js ''3''))), Submit, Settle 7 (Inr (JStr (js ''87.5''))),
      Settle 1 (Inl TimeoutError)] init) 7 = None"
proof -
  let ?evs = "[Submit, Submit, Submit, Submit, Submit, Submit, Submit,
      Settle 0 (Inr (JStr (js ''3''))), Submit, Settle 7 (Inr (JStr (js ''87.5''))),
      Settle 1 (Inl TimeoutError)]"
  have r: "map_of (running (exec [Submit, Submit, Submit, Submit, Submit, Submit, Submit,
      Settle 0 (Inr (JStr (js ''3''))), Submit] init)) 7 = Some \<lparr>job = 6, resolve = 6\<rparr>"
    by (simp add: exec_def init_def submit_def admit_def settle_def runJob_def
        runJob_value_def CONCURRENCY_LIMIT_def)
  have o: "outcomes (exec ?evs init) 6 = Some (Inr (JStr (js ''87.5'')))"
    "outcomes (exec ?evs init) 1 = Some (Inl TimeoutError)"
    "outcomes (exec ?evs init) 7 = None"
    by (simp_all add: exec_def init_def submit_def admit_def settle_def runJob_def
        runJob_value_def CONCURRENCY_LIMIT_def)
  from runJob_own_outcome [of ?evs 6 "JStr (js ''87.5'')"] o(1)
  have "promises (exec ?evs init) 6 = Some (Inr (JStr (js ''87.5'')))" by blast
  moreover from runJob_own_outcome [of ?evs 1 _ TimeoutError] o(2)
  have "promises (exec ?evs init) 1 = Some (Inr JNull)" by blast
  moreover from runJob_own_outcome [of ?evs 7] o(3)
  have "promises (exec ?evs init) 7 = None" by blast
  ultimately show ?thesis using r o by simp
qed

section \<open>Properties of the chapter resolver\<close>

lemma nullish_simps:
  "nullish JNull" "nullish JUndefined" "\<not> nullish (JStr s)" "\<not> nullish (JNum n)"
  "\<not> nullish (JBool b)" "\<not> nullish (JArr xs)" "\<not> nullish (JObj ps)"
  by (simp_all add: nullish_def)

text \<open>
  Claim C4. A raw chapter field that is \<open>null\<close> or \<open>undefined\<close>, or whose string form
  matches \<open>/one[\s-]?shot/i\<close>, is normalized to the string \<open>1\<close>.
\<close>

theorem normalize_one_shot:
  assumes "nullish raw \<or> (\<exists>s. ToString raw = Inr s \<and> one_shot_test s)"
  shows "normalize_chap raw = Inr (JStr (js ''1''))"
proof (cases "nullish raw")
  case True
  then show ?thesis by (simp add: normalize_chap_def)
next
  case False
  with assms obtain s where "ToString raw = Inr s" and "one_shot_test s" by blast
  with False show ?thesis by (simp add: normalize_chap_def nullish_simps)
qed

theorem normalize_one_shot_witness:
  "normalize_chap JNull = Inr (JStr (js ''1'')) \<and>
   normalize_chap JUndefined = Inr (JStr (js ''1'')) \<and>
   one_shot_test (js ''Oneshot'') \<and> normalize_chap (JStr (js ''Oneshot'')) = Inr (JStr (js ''1'')) \<and>
   one_shot_test (js ''One-Shot'') \<and> normalize_chap (JStr (js ''One-Shot'')) = Inr (JStr (js ''1'')) \<and>
   one_shot_test (js ''one shot'') \<and> normalize_chap (JStr (js ''one shot'')) = Inr (JStr (js ''1''))"
proof -
  have a: "one_shot_test (js ''Oneshot'')" and b: "one_shot_test (js ''One-Shot'')"
    and c: "one_shot_test (js ''one shot'')"
    by (simp_all add: js_def match_here_def is_space_def)
  show ?thesis
    using a b c
      normalize_one_shot [of JNull] normalize_one_shot [of JUndefined]
      normalize_one_shot [of "JStr (js ''Oneshot'')"]
      normalize_one_shot [of "JStr (js ''One-Shot'')"]
      normalize_one_shot [of "JStr (js ''one shot'')"]
    by (simp add: nullish_simps)
qed

text \<open>
  Claim C5, as stated, fails: a raw value that is a number is passed on as a number, not
  as its string form. The number 5 has the string form \<open>5\<close>, which is not empty and does
  not match the pattern; the handler resolves with the number.
\<close>

theorem normalize_string_counterexample:
  "\<not> nullish (JNum (js ''5'')) \<and>
   ToString (JNum (js ''5'')) = Inr (js ''5'') \<and>
   js ''5'' \<noteq> [] \<and>
   \<not> one_shot_test (js ''5'') \<and>
   normalize_chap (JNum (js ''5'')) = Inr (JNum (js ''5'')) \<and>
   normalize_chap (JNum (js ''5'')) \<noteq> Inr (JStr (js ''5''))"
  by (simp add: normalize_chap_def nullish_simps js_def match_here_def)

text \<open>
  Claim C5, amended. A raw value that is neither \<open>null\<close> nor \<open>undefined\<close>, whose string form
  is not empty and does not match the pattern, is passed on unchanged; when the raw value
  is a string, that is the string equal to its string form.
\<close>

theorem normalize_identity:
  assumes "\<not> nullish raw" and "ToString raw = Inr s" and "s \<noteq> []" and "\<not> one_shot_test s"
  shows "normalize_chap raw = Inr raw \<and> (\<forall>t. raw = JStr t \<longrightarrow> normalize_chap raw = Inr (JStr s))"
  using assms by (auto simp: normalize_chap_def)

theorem normalize_identity_witness:
  "\<not> nullish (JStr (js ''87.5'')) \<and>
   ToString (JStr (js ''87.5'')) = Inr (js ''87.5'') \<and>
   js ''87.5'' \<noteq> [] \<and>
   \<not> one_shot_test (js ''87.5'') \<and>
   normalize_chap (JStr (js ''87.5'')) = Inr (JStr (js ''87.5''))"
proof -
  have a: "\<not> one_shot_test (js ''87.5'')" by (simp add: js_def match_here_def)
  have b: "js ''87.5'' \<noteq> []" by (simp add: js_def)
  show ?thesis
    using a b normalize_identity [of "JStr (js ''87.5'')" "js ''87.5''"]
    by (simp add: nullish_simps)
qed

text \<open>
  Whatever the network does, a call of \<open>fetchLatestChapter\<close> sends one request and never
  sleeps: the promise of \<open>runJob\<close> is never rejected, so the \<open>return\<close> of line 100 is taken
  in the first round.
\<close>

lemma fetch_single_request:
  "fetchLatestChapter net =
     (runJob_value (doRequest (net 0)), \<lparr>requests = 1, sleeps = []\<rparr>)"
  by (simp add: fetchLatestChapter_def runJob_def SHORT_RETRY_COUNT_def)

text \<open>
  Claim C2 fails on the code. With a network error on every request,
  \<open>fetchLatestChapter\<close> sends one request, does not wait, and returns \<open>null\<close>, where the
  claim has \<open>SHORT_RETRY_COUNT\<close> requests, the waits between them, and the value \<open>?\<close>.
\<close>

theorem fetchLatestChapter_all_fail:
  "doRequest NetFailure = Inl NetworkError \<and>
   fetchLatestChapter (\<lambda>k. NetFailure) = (JNull, \<lparr>requests = 1, sleeps = []\<rparr>) \<and>
   fst (fetchLatestChapter (\<lambda>k. NetFailure)) \<noteq> JStr (js ''?'') \<and>
   requests (snd (fetchLatestChapter (\<lambda>k. NetFailure))) \<noteq> SHORT_RETRY_COUNT"
  by (simp add: fetch_single_request doRequest_def runJob_value_def SHORT_RETRY_COUNT_def)

section \<open>Properties of the card logic\<close>

lemmas parse_defs =
  parseFloat_def unsigned_literal_def exponent_def digits_value_def js_def is_space_def
  is_digit_def

lemmas double_defs =
  to_double_def binary_exponent_def floor_log2_def scaled_def round_div_def pow2_def
  ilog2.simps

lemma parseFloat_unset:
  "parseFloat [] = NaN" "parseFloat (js ''undefined'') = NaN"
  by (simp_all add: parse_defs)

text \<open>The leading bit of \<open>n\<close> is at position \<open>k\<close> when \<open>n\<close> lies from \<open>2 ^ k\<close> to below \<open>2 ^ (k + 1)\<close>.\<close>

lemma ilog2_eq: "2 ^ k \<le> n \<Longrightarrow> n < 2 ^ Suc k \<Longrightarrow> ilog2 n = int k"
proof (induction k arbitrary: n)
  case 0
  then have "n = 1" by simp
  then show ?case by (simp add: ilog2.simps)
next
  case (Suc k)
  define p :: int where "p = 2 ^ k"
  have p: "1 \<le> p" by (simp add: p_def)
  from Suc.prems have a: "2 * p \<le> n" and b: "n < 4 * p" by (simp_all add: p_def)
  from a b have "p \<le> n div 2" and "n div 2 < 2 * p" by linarith+
  then have "ilog2 (n div 2) = int k" by (intro Suc.IH) (simp_all add: p_def)
  moreover from a p have "\<not> n < 2" by linarith
  ultimately show ?case by (subst ilog2.simps) simp
qed

text \<open>
  \<open>parseFloat\<close> rounds and overflows as the doubles do: a literal just below 10 is the
  number 10, a literal beyond the largest double is \<open>Infinity\<close>, and one tenth is the double
  next to it.
\<close>

lemma parseFloat_rounds:
  "parseFloat (js ''9.99999999999999999999'') = Fin 10"
  "parseFloat (js ''0.1'') = Fin (3602879701896397 / 36028797018963968)"
  "parseFloat (js ''-1'') = Fin (- 1)"
  "parseFloat (js ''9.5'') = Fin (19 / 2)"
  "parseFloat (js ''87.5xyz'') = Fin (175 / 2)"
  by (simp_all add: parse_defs double_defs)

lemma parseFloat_overflows: "parseFloat (js ''1e309'') = PosInf"
proof -
  have p: "parseFloat (js ''1e309'') = to_double False (10 ^ 309) 1"
    by (simp add: parse_defs)
  have j: "ilog2 1 = 0" by (simp add: ilog2.simps)
  have "floor_log2 (10 ^ 309) 1 = 1026"
    using ilog2_eq [of 1026 "10 ^ 309"] by (simp add: floor_log2_def j)
  then have "binary_exponent (10 ^ 309) 1 = 974" by (simp add: binary_exponent_def)
  then show ?thesis by (simp add: p to_double_def)
qed

text \<open>
  With these values \<open>applyVisibility\<close> shows a card whose chapter reads just below the
  threshold 10 but is the number 10, and a card whose chapter overflows under the threshold
  \<open>Infinity\<close>.
\<close>

lemma applyVisibility_rounded:
  "display (applyVisibility ((new_card True None (Fin 10))
     \<lparr>dataset_chap := Some (js ''9.99999999999999999999'')\<rparr>)) = []"
  "display (applyVisibility ((new_card True None PosInf)
     \<lparr>dataset_chap := Some (js ''1e309'')\<rparr>)) = []"
  by (simp_all add: applyVisibility_def chap_number_def new_card_def parseFloat_rounds
      parseFloat_overflows)

text \<open>
  Claim C7, as stated, fails for a threshold that is not positive: a card resolved with the
  chapter \<open>-1\<close> under the threshold 0 has a numeric value below the threshold, and
  \<open>applyVisibility\<close> leaves it visible.
\<close>

theorem applyVisibility_counterexample:
  "dataset_chap (run [Discover, Return (JStr (js ''-1''))]
      (new_card True (Some (js ''/title/abc'')) (Fin 0))) = Some (js ''-1'') \<and>
   minChapters (run [Discover, Return (JStr (js ''-1''))]
      (new_card True (Some (js ''/title/abc'')) (Fin 0))) = Fin 0 \<and>
   chap_number (run [Discover, Return (JStr (js ''-1''))]
      (new_card True (Some (js ''/title/abc'')) (Fin 0))) = Fin (- 1) \<and>
   js_less (Fin (- 1)) (Fin 0) \<and>
   display (applyVisibility (run [Discover, Return (JStr (js ''-1''))]
      (new_card True (Some (js ''/title/abc'')) (Fin 0)))) \<noteq> js ''none''"
proof -
  have c: "run [Discover, Return (JStr (js ''-1''))] (new_card True (Some (js ''/title/abc'')) (Fin 0))
      = (new_card True (Some (js ''/title/abc'')) (Fin 0))
          \<lparr>badge := Some (js ''-1''), dataset_chap := Some (js ''-1''), processed := True,
           resolver_calls := [js ''abc'']\<rparr>"
    by (simp add: run_def new_card_def enhanceCard_def mangaId_of_def tryFillBadge_def
        tryFillBadge_resume_def nullish_def applyVisibility_def chap_number_def js_def)
  show ?thesis
    unfolding c
    by (simp add: new_card_def applyVisibility_def chap_number_def parseFloat_rounds)
       (simp add: js_def)
qed

text \<open>
  Claim C7, amended. With a positive threshold, \<open>applyVisibility\<close> hides exactly the cards
  whose \<open>dataset.chap\<close> parses to a number below the threshold; with a threshold that is
  not positive it hides no card; and whatever the threshold, it hides no card whose
  \<open>dataset.chap\<close> is unset or empty, as it is while the card is pending or unknown:
  \<open>tryFillBadge\<close> empties it whenever the resolver gives \<open>?\<close> or \<open>null\<close>.
\<close>

theorem applyVisibility_threshold:
  "(js_less (Fin 0) (minChapters s) \<longrightarrow>
      (display (applyVisibility s) = js ''none'' \<longleftrightarrow>
         chap_number s \<noteq> NaN \<and> js_less (chap_number s) (minChapters s))) \<and>
   (\<not> js_less (Fin 0) (minChapters s) \<longrightarrow> display (applyVisibility s) = []) \<and>
   (display (applyVisibility s) \<noteq> js ''none'' \<longrightarrow> display (applyVisibility s) = []) \<and>
   (dataset_chap s = None \<or> dataset_chap s = Some [] \<longrightarrow> display (applyVisibility s) = []) \<and>
   (chap = JStr (js ''?'') \<or> nullish chap \<longrightarrow>
      dataset_chap (tryFillBadge_resume chap mangaId longTry s) = Some [] \<and>
      display (applyVisibility (tryFillBadge_resume chap mangaId longTry s)) = [])"
proof -
  have "js ''none'' \<noteq> []" by (simp add: js_def)
  moreover have e: "display (applyVisibility t) = []"
    if "dataset_chap t = None \<or> dataset_chap t = Some []" for t
    using that by (auto simp: applyVisibility_def chap_number_def parseFloat_unset)
  moreover have "dataset_chap (tryFillBadge_resume chap mangaId longTry s) = Some []"
    if "chap = JStr (js ''?'') \<or> nullish chap"
    using that by (auto simp: tryFillBadge_resume_def)
  ultimately show ?thesis by (auto simp: applyVisibility_def)
qed

theorem applyVisibility_threshold_witness:
  "js_less (Fin 0) (minChapters ((new_card True None (Fin 10))\<lparr>dataset_chap := Some (js ''9.5'')\<rparr>)) \<and>
   chap_number ((new_card True None (Fin 10))\<lparr>dataset_chap := Some (js ''9.5'')\<rparr>) = Fin (19 / 2) \<and>
   display (applyVisibility ((new_card True None (Fin 10))\<lparr>dataset_chap := Some (js ''9.5'')\<rparr>))
     = js ''none'' \<and>
   \<not> js_less (Fin 0) (minChapters ((new_card True None (Fin 0))\<lparr>dataset_chap := Some (js ''9.5'')\<rparr>)) \<and>
   display (applyVisibility ((new_card True None (Fin 0))\<lparr>dataset_chap := Some (js ''9.5'')\<rparr>)) = [] \<and>
   dataset_chap (new_card True None (Fin 10)) = None \<and>
   display (applyVisibility (new_card True None (Fin 10))) = [] \<and>
   nullish JNull \<and>
   display (applyVisibility (tryFillBadge_resume JNull (js ''abc'') 6
     ((new_card True None (Fin 10))\<lparr>dataset_chap := Some (js ''9.5'')\<rparr>))) = [] \<and>
   chap_number ((new_card True None (Fin 10))
     \<lparr>dataset_chap := Some (js ''9.99999999999999999999'')\<rparr>) = Fin 10 \<and>
   display (applyVisibility ((new_card True None (Fin 10))
     \<lparr>dataset_chap := Some (js ''9.99999999999999999999'')\<rparr>)) = []"
proof -
  have n: "chap_number ((new_card True None m)\<lparr>dataset_chap := Some (js ''9.5'')\<rparr>) = Fin (19 / 2)"
    for m
    by (simp add: new_card_def chap_number_def parseFloat_rounds)
  show ?thesis
    using n [of "Fin 10"]
      applyVisibility_threshold [of "(new_card True None (Fin 10))\<lparr>dataset_chap := Some (js ''9.5'')\<rparr>"
        JNull "js ''abc''" 6]
      applyVisibility_threshold [of "(new_card True None (Fin 0))\<lparr>dataset_chap := Some (js ''9.5'')\<rparr>"]
      applyVisibility_threshold [of "new_card True None (Fin 10)"]
      applyVisibility_threshold [of "(new_card True None (Fin 10))
        \<lparr>dataset_chap := Some (js ''9.99999999999999999999'')\<rparr>"]
    by (simp add: new_card_def nullish_def chap_number_def parseFloat_rounds)
qed

lemma drive_idle: "awaiting s = None \<Longrightarrow> timer s = None \<Longrightarrow> drive resolver n s = s"
  by (cases n) simp_all

lemma failed_round:
  assumes "attached s" and "awaiting s = Some (mangaId, k)" and "timer s = None"
    and "k < LONG_RETRY_MAX" and "resolver (length (resolver_calls s)) = JStr (js ''?'')"
  shows "drive resolver (Suc (Suc n)) s =
     drive resolver n
       (s\<lparr>badge := Some [8230], dataset_chap := Some [],
          timeouts := timeouts s @ [LONG_RETRY_BASE * 2 ^ k], timer := None,
          awaiting := Some (mangaId, Suc k),
          resolver_calls := resolver_calls s @ [mangaId]\<rparr>)"
  using assms by (simp add: tryFillBadge_resume_def tryFillBadge_def)

lemma last_round:
  assumes "awaiting s = Some (mangaId, k)" and "timer s = None"
    and "\<not> k < LONG_RETRY_MAX" and "resolver (length (resolver_calls s)) = JStr (js ''?'')"
  shows "drive resolver (Suc n) s =
     s\<lparr>awaiting := None, badge := Some (js ''?''), dataset_chap := Some []\<rparr>"
  using assms by (simp add: tryFillBadge_resume_def drive_idle)

lemma failing_session:
  assumes "\<forall>j. resolver j = JStr (js ''?'')"
  shows "attached s \<Longrightarrow> awaiting s = Some (mangaId, k) \<Longrightarrow> timer s = None \<Longrightarrow>
     LONG_RETRY_MAX - k = d \<Longrightarrow> k \<le> LONG_RETRY_MAX \<Longrightarrow> 2 * d + 1 \<le> n \<Longrightarrow>
     timeouts (drive resolver n s)
       = timeouts s @ map (\<lambda>j. LONG_RETRY_BASE * 2 ^ j) [k..<LONG_RETRY_MAX] \<and>
     resolver_calls (drive resolver n s) = resolver_calls s @ replicate d mangaId \<and>
     badge (drive resolver n s) = Some (js ''?'') \<and>
     dataset_chap (drive resolver n s) = Some [] \<and>
     awaiting (drive resolver n s) = None \<and>
     timer (drive resolver n s) = None \<and>
     display (drive resolver n s) = display s"
proof (induction d arbitrary: s k n)
  case 0
  then obtain m where n: "n = Suc m" by (cases n) auto
  from 0 have "\<not> k < LONG_RETRY_MAX" by simp
  with 0 assms have "drive resolver (Suc m) s =
      s\<lparr>awaiting := None, badge := Some (js ''?''), dataset_chap := Some []\<rparr>"
    by (intro last_round) auto
  with 0 n show ?case by simp
next
  case (Suc d)
  then obtain m where n: "n = Suc (Suc m)" and m: "2 * d + 1 \<le> m"
    by (cases n; cases "n - 1") auto
  from Suc.prems have k: "k < LONG_RETRY_MAX" by simp
  let ?s = "s\<lparr>badge := Some [8230], dataset_chap := Some [],
          timeouts := timeouts s @ [LONG_RETRY_BASE * 2 ^ k], timer := None,
          awaiting := Some (mangaId, Suc k),
          resolver_calls := resolver_calls s @ [mangaId]\<rparr>"
  from Suc.prems k assms have r: "drive resolver (Suc (Suc m)) s = drive resolver m ?s"
    by (intro failed_round) auto
  have "timeouts (drive resolver m ?s)
       = timeouts ?s @ map (\<lambda>j. LONG_RETRY_BASE * 2 ^ j) [Suc k..<LONG_RETRY_MAX] \<and>
     resolver_calls (drive resolver m ?s) = resolver_calls ?s @ replicate d mangaId \<and>
     badge (drive resolver m ?s) = Some (js ''?'') \<and>
     dataset_chap (drive resolver m ?s) = Some [] \<and>
     awaiting (drive resolver m ?s) = None \<and>
     timer (drive resolver m ?s) = None \<and>
     display (drive resolver m ?s) = display ?s"
    using Suc.prems k m by (intro Suc.IH) auto
  with r n k show ?case by (simp add: upt_conv_Cons replicate_append_same)
qed

text \<open>
  Claim C6. For a card that is in the document and has no timer pending, with a resolver
  that gives \<open>?\<close> at every call, the session started by \<open>tryFillBadge\<close> with
  \<open>longTry = 0\<close> and left to run (at least \<open>2 * LONG_RETRY_MAX + 1\<close> steps) sets
  exactly \<open>LONG_RETRY_MAX\<close> timers, with the delays \<open>LONG_RETRY_BASE * 2 ^ j\<close> for
  \<open>j = 0, ..., LONG_RETRY_MAX - 1\<close>, that is 5, 10, 20, 40, 80 and 160 seconds, calls the
  resolver once more after each, and then stops with the badge \<open>?\<close>, an empty
  \<open>dataset.chap\<close>, no timer pending and the card's \<open>display\<close> untouched;
  \<open>applyVisibility\<close> then shows the card whatever the threshold.
\<close>

theorem long_retries_then_unknown:
  assumes "attached s" and "timer s = None"
    and "\<forall>j. resolver j = JStr (js ''?'')" and "2 * LONG_RETRY_MAX + 1 \<le> n"
  shows "timeouts (drive resolver n (tryFillBadge mangaId 0 s))
       = timeouts s @ map (\<lambda>j. LONG_RETRY_BASE * 2 ^ j) [0..<LONG_RETRY_MAX] \<and>
     map (\<lambda>j. LONG_RETRY_BASE * 2 ^ j) [0..<LONG_RETRY_MAX]
       = [5000, 10000, 20000, 40000, 80000, 160000] \<and>
     resolver_calls (drive resolver n (tryFillBadge mangaId 0 s))
       = resolver_calls s @ replicate (LONG_RETRY_MAX + 1) mangaId \<and>
     badge (drive resolver n (tryFillBadge mangaId 0 s)) = Some (js ''?'') \<and>
     dataset_chap (drive resolver n (tryFillBadge mangaId 0 s)) = Some [] \<and>
     awaiting (drive resolver n (tryFillBadge mangaId 0 s)) = None \<and>
     timer (drive resolver n (tryFillBadge mangaId 0 s)) = None \<and>
     display (drive resolver n (tryFillBadge mangaId 0 s)) = display s \<and>
     display (applyVisibility (drive resolver n (tryFillBadge mangaId 0 s))) = []"
proof -
  let ?s = "s\<lparr>awaiting := Some (mangaId, 0), resolver_calls := resolver_calls s @ [mangaId]\<rparr>"
  let ?f = "drive resolver n ?s"
  from assms(1) have t: "tryFillBadge mangaId 0 s = ?s" by (simp add: tryFillBadge_def)
  have f: "timeouts ?f = timeouts ?s @ map (\<lambda>j. LONG_RETRY_BASE * 2 ^ j) [0..<LONG_RETRY_MAX] \<and>
     resolver_calls ?f = resolver_calls ?s @ replicate LONG_RETRY_MAX mangaId \<and>
     badge ?f = Some (js ''?'') \<and> dataset_chap ?f = Some [] \<and> awaiting ?f = None \<and>
     timer ?f = None \<and> display ?f = display ?s"
    using assms by (intro failing_session) auto
  have d: "map (\<lambda>j. LONG_RETRY_BASE * 2 ^ j) [0..<LONG_RETRY_MAX]
       = [5000, 10000, 20000, 40000, 80000, 160000]"
    by (simp add: LONG_RETRY_BASE_def LONG_RETRY_MAX_def upt_rec)
  from f have "dataset_chap ?f = Some []" by simp
  then have v: "display (applyVisibility ?f) = []"
    by (simp add: applyVisibility_def chap_number_def parseFloat_unset)
  from f d v show ?thesis unfolding t by (simp add: replicate_append_same)
qed

theorem long_retries_then_unknown_witness:
  "attached (new_card True None (Fin 3)) \<and>
   timer (new_card True None (Fin 3)) = None \<and>
   2 * LONG_RETRY_MAX + 1 \<le> (13::nat) \<and>
   timeouts (drive (\<lambda>j. JStr (js ''?'')) 13 (tryFillBadge (js ''abc'') 0 (new_card True None (Fin 3))))
     = [5000, 10000, 20000, 40000, 80000, 160000] \<and>
   length (resolver_calls (drive (\<lambda>j. JStr (js ''?'')) 13
     (tryFillBadge (js ''abc'') 0 (new_card True None (Fin 3))))) = 7 \<and>
   badge (drive (\<lambda>j. JStr (js ''?'')) 13 (tryFillBadge (js ''abc'') 0 (new_card True None (Fin 3))))
     = Some (js ''?'') \<and>
   display (applyVisibility (drive (\<lambda>j. JStr (js ''?'')) 13
     (tryFillBadge (js ''abc'') 0 (new_card True None (Fin 3))))) = []"
  using long_retries_then_unknown [of "new_card True None (Fin 3)" "\<lambda>j. JStr (js ''?'')" 13 "js ''abc''"]
  by (simp add: new_card_def LONG_RETRY_MAX_def)

lemma detached_act:
  assumes "\<not> attached s" and "a \<noteq> Attach"
  shows "\<not> attached (act a s) \<and> resolver_calls (act a s) = resolver_calls s"
proof (cases a)
  case Discover
  with assms show ?thesis
    by (simp add: enhanceCard_def tryFillBadge_def split: option.splits)
next
  case Fire
  with assms show ?thesis
    by (simp add: tryFillBadge_def split: option.splits)
next
  case (Return chap)
  with assms show ?thesis
    by (simp add: tryFillBadge_resume_def applyVisibility_def split: option.splits sum.splits)
next
  case Detach
  with assms show ?thesis by simp
next
  case Attach
  with assms show ?thesis by simp
next
  case (Input v)
  with assms show ?thesis by simp
qed

lemma detached_run:
  "\<not> attached s \<Longrightarrow> Attach \<notin> set as \<Longrightarrow>
   \<not> attached (run as s) \<and> resolver_calls (run as s) = resolver_calls s"
proof (induction as arbitrary: s)
  case Nil
  then show ?case by (simp add: run_def)
next
  case (Cons a as)
  from Cons.prems have "\<not> attached (act a s) \<and> resolver_calls (act a s) = resolver_calls s"
    by (intro detached_act) auto
  moreover from this Cons.prems
  have "\<not> attached (run as (act a s)) \<and>
      resolver_calls (run as (act a s)) = resolver_calls (act a s)"
    by (intro Cons.IH) auto
  ultimately show ?case by (simp add: run_def)
qed

text \<open>
  On a card that is out of the document, only a call of \<open>tryFillBadge\<close> that was already
  suspended in the resolver can still set a timer, and it does so at most once: no step
  increases the number of timers set plus the number of suspended calls.
\<close>

lemma detached_timers_act:
  assumes "\<not> attached s" and "a \<noteq> Attach"
  shows "length (timeouts (act a s)) + (if awaiting (act a s) = None then 0 else 1)
       \<le> length (timeouts s) + (if awaiting s = None then 0 else 1) \<and>
     (awaiting s = None \<longrightarrow> awaiting (act a s) = None \<and> timeouts (act a s) = timeouts s)"
proof (cases a)
  case Discover
  with assms show ?thesis
    by (simp add: enhanceCard_def tryFillBadge_def split: option.splits)
next
  case Fire
  with assms show ?thesis
    by (simp add: tryFillBadge_def split: option.splits)
next
  case (Return chap)
  with assms show ?thesis
    by (simp add: tryFillBadge_resume_def applyVisibility_def split: option.splits sum.splits)
next
  case Detach
  with assms show ?thesis by simp
next
  case Attach
  with assms show ?thesis by simp
next
  case (Input v)
  with assms show ?thesis by simp
qed

lemma detached_timers_run:
  "\<not> attached s \<Longrightarrow> Attach \<notin> set as \<Longrightarrow>
   length (timeouts (run as s)) + (if awaiting (run as s) = None then 0 else 1)
     \<le> length (timeouts s) + (if awaiting s = None then 0 else 1) \<and>
   (awaiting s = None \<longrightarrow> awaiting (run as s) = None \<and> timeouts (run as s) = timeouts s)"
proof (induction as arbitrary: s)
  case Nil
  then show ?case by (simp add: run_def)
next
  case (Cons a as)
  from Cons.prems have d: "\<not> attached (act a s)"
    using detached_act [of s a] by auto
  from Cons.prems have 1: "length (timeouts (act a s)) + (if awaiting (act a s) = None then 0 else 1)
       \<le> length (timeouts s) + (if awaiting s = None then 0 else 1) \<and>
     (awaiting s = None \<longrightarrow> awaiting (act a s) = None \<and> timeouts (act a s) = timeouts s)"
    by (intro detached_timers_act) auto
  from d Cons.prems have 2: "length (timeouts (run as (act a s)))
         + (if awaiting (run as (act a s)) = None then 0 else 1)
       \<le> length (timeouts (act a s)) + (if awaiting (act a s) = None then 0 else 1) \<and>
     (awaiting (act a s) = None \<longrightarrow>
        awaiting (run as (act a s)) = None \<and> timeouts (run as (act a s)) = timeouts (act a s))"
    by (intro Cons.IH) auto
  have r: "run (a # as) s = run as (act a s)" by (simp add: run_def)
  from 1 2 show ?case unfolding r by (auto split: if_splits)
qed

text \<open>
  Claim C8, as stated, fails in two ways. A call of \<open>tryFillBadge\<close> that is suspended in the
  resolver when the card is removed does not look at the card again: when the resolver
  fails, it sets a timer of 5000 ms on the removed card. And a card that the page puts back
  gets a further resolver call from the timer that was pending.
\<close>

theorem detached_counterexample:
  "\<not> attached (run [Discover, Detach] (new_card True (Some (js ''/title/abc'')) (Fin 0))) \<and>
   timeouts (run [Discover, Detach] (new_card True (Some (js ''/title/abc'')) (Fin 0))) = [] \<and>
   timeouts (run [Discover, Detach, Return JNull]
     (new_card True (Some (js ''/title/abc'')) (Fin 0))) = [5000] \<and>
   timer (run [Discover, Detach, Return JNull]
     (new_card True (Some (js ''/title/abc'')) (Fin 0))) = Some (5000, js ''abc'', 1) \<and>
   \<not> attached (run [Discover, Return JNull, Detach]
     (new_card True (Some (js ''/title/abc'')) (Fin 0))) \<and>
   resolver_calls (run [Discover, Return JNull, Detach]
     (new_card True (Some (js ''/title/abc'')) (Fin 0))) = [js ''abc''] \<and>
   resolver_calls (run [Discover, Return JNull, Detach, Attach, Fire]
     (new_card True (Some (js ''/title/abc'')) (Fin 0))) = [js ''abc'', js ''abc'']"
  by (simp add: run_def new_card_def enhanceCard_def mangaId_of_def tryFillBadge_def
      tryFillBadge_resume_def nullish_def LONG_RETRY_MAX_def LONG_RETRY_BASE_def js_def)

text \<open>
  Claim C8, amended. Once the card is out of the document, and for as long as the page does
  not put it back, no call of the resolver is started for it, whatever happens: a call of
  \<open>tryFillBadge\<close> ends at its first line, calling no resolver and setting no timer, and a
  timer that was pending when the card was removed fires to no effect. At most one more
  timer is set, by a call that was suspended in the resolver when the card was removed, and
  none when there was no such call.
\<close>

theorem detached_no_resolver_call:
  assumes "\<not> attached s" and "Attach \<notin> set as"
  shows "resolver_calls (run as s) = resolver_calls s \<and>
     length (timeouts (run as s)) \<le> length (timeouts s) + 1 \<and>
     (awaiting s = None \<longrightarrow> timeouts (run as s) = timeouts s) \<and>
     tryFillBadge mangaId longTry s = s \<and>
     act Fire s = s\<lparr>timer := None\<rparr>"
proof -
  from assms have "resolver_calls (run as s) = resolver_calls s"
    by (simp add: detached_run)
  moreover from detached_timers_run [OF assms]
  have "length (timeouts (run as s)) \<le> length (timeouts s) + 1"
    and "awaiting s = None \<longrightarrow> timeouts (run as s) = timeouts s"
    by (auto split: if_splits)
  moreover from assms(1) have "tryFillBadge mangaId longTry s = s"
    by (simp add: tryFillBadge_def)
  moreover from assms(1) have "act Fire s = s\<lparr>timer := None\<rparr>"
    by (cases "timer s") (auto simp: tryFillBadge_def)
  ultimately show ?thesis by simp
qed

theorem detached_no_resolver_call_witness:
  "\<not> attached (run [Discover, Return JNull, Detach] (new_card True (Some (js ''/title/abc'')) (Fin 0))) \<and>
   awaiting (run [Discover, Return JNull, Detach] (new_card True (Some (js ''/title/abc'')) (Fin 0)))
     = None \<and>
   timer (run [Discover, Return JNull, Detach] (new_card True (Some (js ''/title/abc'')) (Fin 0)))
     = Some (5000, js ''abc'', 1) \<and>
   Attach \<notin> set [Fire, Return (JStr (js ''7'')), Input (Fin 3), Fire] \<and>
   resolver_calls (run [Discover, Return JNull, Detach] (new_card True (Some (js ''/title/abc'')) (Fin 0)))
     = [js ''abc''] \<and>
   resolver_calls (run [Fire, Return (JStr (js ''7'')), Input (Fin 3), Fire]
     (run [Discover, Return JNull, Detach] (new_card True (Some (js ''/title/abc'')) (Fin 0))))
     = [js ''abc''] \<and>
   timeouts (run [Discover, Return JNull, Detach] (new_card True (Some (js ''/title/abc'')) (Fin 0)))
     = [5000] \<and>
   timeouts (run [Fire, Return (JStr (js ''7'')), Input (Fin 3), Fire]
     (run [Discover, Return JNull, Detach] (new_card True (Some (js ''/title/abc'')) (Fin 0))))
     = [5000] \<and>
   timer (act Fire (run [Discover, Return JNull, Detach]
     (new_card True (Some (js ''/title/abc'')) (Fin 0)))) = None"
proof -
  let ?s = "run [Discover, Return JNull, Detach] (new_card True (Some (js ''/title/abc'')) (Fin 0))"
  let ?as = "[Fire, Return (JStr (js ''7'')), Input (Fin 3), Fire]"
  have s: "\<not> attached ?s" "awaiting ?s = None" "timer ?s = Some (5000, js ''abc'', 1)"
    "resolver_calls ?s = [js ''abc'']" "timeouts ?s = [5000]"
    by (simp_all add: run_def new_card_def enhanceCard_def mangaId_of_def tryFillBadge_def
        tryFillBadge_resume_def nullish_def LONG_RETRY_MAX_def LONG_RETRY_BASE_def js_def)
  have a: "Attach \<notin> set ?as" by simp
  from detached_no_resolver_call [OF s(1) a, of "js ''abc''" 1] s
  have "resolver_calls (run ?as ?s) = [js ''abc'']" and "timeouts (run ?as ?s) = [5000]"
    and "timer (act Fire ?s) = None"
    by simp_all
  with s a show ?thesis by simp
qed

lemma idle_act:
  assumes "processed s" and "awaiting s = None" and "timer s = None"
  shows "processed (act a s) \<and> awaiting (act a s) = None \<and> timer (act a s) = None \<and>
     resolver_calls (act a s) = resolver_calls s \<and> badge (act a s) = badge s"
  using assms by (cases a) (simp_all add: enhanceCard_def applyVisibility_def Let_def)

lemma idle_run:
  "processed s \<Longrightarrow> awaiting s = None \<Longrightarrow> timer s = None \<Longrightarrow>
   resolver_calls (run as s) = resolver_calls s \<and> badge (run as s) = badge s"
proof (induction as arbitrary: s)
  case Nil
  then show ?case by (simp add: run_def)
next
  case (Cons a as)
  from idle_act [OF Cons.prems, of a] Cons.IH [of "act a s"]
  show ?case by (simp add: run_def)
qed

text \<open>
  Claim C9, as stated, fails for a card without a cover element: \<open>enhanceCard\<close> returns at
  line 150, before it looks for an identifier, and the card gets no badge and no mark.
\<close>

theorem enhanceCard_no_cover_counterexample:
  "mangaId_of (href (new_card False None (Fin 0))) = None \<and>
   badge (enhanceCard (new_card False None (Fin 0))) = None \<and>
   badge (enhanceCard (new_card False None (Fin 0))) \<noteq> Some (js ''?'') \<and>
   enhanceCard (new_card False None (Fin 0)) = (new_card False None (Fin 0))\<lparr>processed := True\<rparr>"
  by (simp add: enhanceCard_def new_card_def mangaId_of_def)

text \<open>
  Claim C9, amended. A card seen for the first time, from which no identifier can be
  extracted, gets the badge \<open>?\<close> at once when it has a cover element, and is left without
  a badge when it has none; in both cases no session is started, and whatever happens
  afterwards the resolver is never called for it and the badge stays.
\<close>

theorem enhanceCard_no_id:
  assumes "\<not> processed s" and "mangaId_of (href s) = None"
    and "awaiting s = None" and "timer s = None"
  shows "(cover s \<longrightarrow> badge (enhanceCard s) = Some (js ''?'')) \<and>
     (\<not> cover s \<longrightarrow> enhanceCard s = s\<lparr>processed := True\<rparr>) \<and>
     awaiting (enhanceCard s) = None \<and> timer (enhanceCard s) = None \<and>
     resolver_calls (enhanceCard s) = resolver_calls s \<and>
     resolver_calls (run as (enhanceCard s)) = resolver_calls s \<and>
     badge (run as (enhanceCard s)) = badge (enhanceCard s)"
proof -
  from assms have e: "processed (enhanceCard s)" "awaiting (enhanceCard s) = None"
    "timer (enhanceCard s) = None" "resolver_calls (enhanceCard s) = resolver_calls s"
    by (simp_all add: enhanceCard_def)
  from idle_run [OF e(1-3), of as] e assms show ?thesis
    by (simp add: enhanceCard_def)
qed

theorem enhanceCard_no_id_witness:
  "\<not> processed (new_card True (Some (js ''x/title//'')) (Fin 2)) \<and>
   mangaId_of (href (new_card True (Some (js ''x/title//'')) (Fin 2))) = None \<and>
   cover (new_card True (Some (js ''x/title//'')) (Fin 2)) \<and>
   badge (enhanceCard (new_card True (Some (js ''x/title//'')) (Fin 2))) = Some (js ''?'') \<and>
   resolver_calls (run [Fire, Return (JStr (js ''3'')), Discover, Detach, Attach, Fire]
     (enhanceCard (new_card True (Some (js ''x/title//'')) (Fin 2)))) = [] \<and>
   \<not> cover (new_card False None (Fin 2)) \<and>
   mangaId_of (href (new_card False None (Fin 2))) = None \<and>
   resolver_calls (run [Fire, Return (JStr (js ''3'')), Discover, Detach, Attach, Fire]
     (enhanceCard (new_card False None (Fin 2)))) = []"
proof -
  let ?a = "new_card True (Some (js ''x/title//'')) (Fin 2)"
  let ?b = "new_card False None (Fin 2)"
  have a: "\<not> processed ?a" "mangaId_of (href ?a) = None" "awaiting ?a = None" "timer ?a = None"
    and ca: "cover ?a" and ra: "resolver_calls ?a = []"
    by (simp_all add: new_card_def mangaId_of_def js_def)
  have b: "\<not> processed ?b" "mangaId_of (href ?b) = None" "awaiting ?b = None" "timer ?b = None"
    and cb: "\<not> cover ?b" and rb: "resolver_calls ?b = []"
    by (simp_all add: new_card_def mangaId_of_def)
  let ?as = "[Fire, Return (JStr (js ''3'')), Discover, Detach, Attach, Fire]"
  from enhanceCard_no_id [OF a, of ?as] ca
  have "badge (enhanceCard ?a) = Some (js ''?'')"
    and "resolver_calls (run ?as (enhanceCard ?a)) = resolver_calls ?a"
    by blast+
  moreover from enhanceCard_no_id [OF b, of ?as]
  have "resolver_calls (run ?as (enhanceCard ?b)) = resolver_calls ?b"
    by blast
  ultimately show ?thesis using a b ca cb ra rb by simp
qed

end
